theory Spec2Isabelle
  imports Main "HOL-Library.Word" "HOL-Library.AList"
begin

unbundle bit_operations_syntax

section \<open>dead-chat: a WebSocket chat relay (server.js)\<close>

text \<open>
  A shallow embedding of \<^verbatim>\<open>server.js\<close>. The module-level state (\<^verbatim>\<open>clients\<close>,
  \<^verbatim>\<open>nextId\<close>, \<^verbatim>\<open>history\<close>) and the sockets are one record that every handler
  takes and returns. Every handler runs to completion on Node's single event loop, so a
  handler is a function from state to state.
\<close>

subsection \<open>Configuration\<close>

definition MAX_HISTORY :: nat where "MAX_HISTORY = 50"
definition MAX_NICK_LEN :: nat where "MAX_NICK_LEN = 24"
definition MAX_MSG_LEN :: nat where "MAX_MSG_LEN = 1000"
definition MAX_CLIENTS :: nat where "MAX_CLIENTS = 100"
definition RATE_LIMIT_MSG :: nat where "RATE_LIMIT_MSG = 5"
definition RATE_LIMIT_WIN :: int where "RATE_LIMIT_WIN = 1000"

subsection \<open>Strings, bytes and messages\<close>

text \<open>
  A JavaScript string is a sequence of UTF-16 code units; \<^verbatim>\<open>length\<close>, \<^verbatim>\<open>slice\<close>,
  \<^verbatim>\<open>trim\<close> and the regular expression of \<^verbatim>\<open>sanitizeNick\<close> all work on code units.
  A code unit is a natural number here, and \<open>js ''Bob''\<close> is the string of an ASCII literal.
  A \<^verbatim>\<open>Buffer\<close> is a list of bytes. \<^verbatim>\<open>Date.now()\<close> is an integer of milliseconds,
  passed to each handler as \<open>now\<close>.
\<close>

type_synonym jsstring = "nat list"
type_synonym byte = "8 word"
type_synonym sock = nat

abbreviation js :: "string \<Rightarrow> jsstring" where
  "js s \<equiv> map of_char s"

text \<open>
  The objects the server sends: \<^verbatim>\<open>{type:'message', nick, text, ts}\<close>,
  \<^verbatim>\<open>{type:'system', text, ts, count}\<close> (the rate-limit warning has no count),
  \<^verbatim>\<open>{type:'history', messages}\<close> and \<^verbatim>\<open>{type:'identity', nick}\<close>.
\<close>

datatype message =
    Chat jsstring jsstring int
  | System jsstring int "nat option"
  | History "message list"
  | Identity jsstring

subsection \<open>History\<close>

text \<open>
  \<^verbatim>\<open>
  function addToHistory(msg) {
    history.push(msg);
    if (history.length > MAX_HISTORY) history.shift();
  }
  \<close>
\<close>

definition addToHistory :: "message \<Rightarrow> message list \<Rightarrow> message list" where
  "addToHistory msg history =
     (let pushed = history @ [msg]
      in if length pushed > MAX_HISTORY then tl pushed else pushed)"

text \<open>Appending a sequence of messages, one call of \<open>addToHistory\<close> each, oldest first.\<close>

definition addAllToHistory :: "message list \<Rightarrow> message list \<Rightarrow> message list" where
  "addAllToHistory msgs history = foldl (\<lambda>h m. addToHistory m h) history msgs"

lemma addToHistory_window:
  "length h \<le> MAX_HISTORY \<Longrightarrow>
   addToHistory m h = drop (length (h @ [m]) - MAX_HISTORY) (h @ [m])"
  by (cases h) (simp_all add: addToHistory_def Let_def MAX_HISTORY_def drop_Cons')

lemma drop_append_le: "k \<le> length xs \<Longrightarrow> drop k (xs @ ys) = drop k xs @ ys"
  by simp

lemma addAllToHistory_window:
  "length h \<le> MAX_HISTORY \<Longrightarrow>
   addAllToHistory ms h = drop (length (h @ ms) - MAX_HISTORY) (h @ ms)"
proof (induction ms arbitrary: h)
  case Nil
  then show ?case by (simp add: addAllToHistory_def)
next
  case (Cons m ms)
  let ?h1 = "addToHistory m h"
  have h1: "?h1 = drop (length (h @ [m]) - MAX_HISTORY) (h @ [m])"
    using Cons.prems by (rule addToHistory_window)
  then have len: "length ?h1 \<le> MAX_HISTORY"
    by simp
  have "addAllToHistory (m # ms) h = addAllToHistory ms ?h1"
    by (simp add: addAllToHistory_def)
  also have "\<dots> = drop (length (?h1 @ ms) - MAX_HISTORY) (?h1 @ ms)"
    using len by (rule Cons.IH)
  also have "\<dots> = drop (length (h @ m # ms) - MAX_HISTORY) (h @ m # ms)"
  proof -
    let ?k = "length (h @ [m]) - MAX_HISTORY"
    let ?j = "length (?h1 @ ms) - MAX_HISTORY"
    have k: "?k \<le> length (h @ [m])" by simp
    have app: "?h1 @ ms = drop ?k ((h @ [m]) @ ms)"
      by (simp only: h1 drop_append_le [OF k])
    have "length ?h1 = length (h @ [m]) - ?k"
      by (simp only: h1 length_drop)
    then have "length ?h1 = min (Suc (length h)) MAX_HISTORY"
      by simp
    then have sum: "?j + ?k = length (h @ m # ms) - MAX_HISTORY"
      using Cons.prems by simp
    have "drop ?j (?h1 @ ms) = drop ?j (drop ?k ((h @ [m]) @ ms))"
      using app by (rule arg_cong)
    also have "\<dots> = drop (?j + ?k) ((h @ [m]) @ ms)"
      by (rule drop_drop)
    also have "\<dots> = drop (length (h @ m # ms) - MAX_HISTORY) (h @ m # ms)"
      by (simp only: sum) simp
    finally show ?thesis .
  qed
  finally show ?case .
qed

text \<open>
  C4. The history starts empty. After any sequence of appends it holds the last 50
  messages appended, in the order of their insertion (so never more than 50, the oldest
  evicted first); after 51 messages \<open>f 1, \<dots>, f 51\<close> it holds exactly \<open>f 2, \<dots>, f 51\<close>.
\<close>

theorem history_bounded_fifo:
  "addAllToHistory ms [] = drop (length ms - 50) ms
   \<and> length (addAllToHistory ms []) \<le> 50
   \<and> addAllToHistory (map f [1..<52]) [] = map f [2..<52]"
proof -
  have win: "addAllToHistory xs [] = drop (length xs - 50) xs" for xs
    using addAllToHistory_window [of "[]" xs] by (simp add: MAX_HISTORY_def)
  have len: "length (addAllToHistory ms []) \<le> 50"
    by (simp add: win)
  have "addAllToHistory (map f [1..<52]) [] = drop 1 (map f [1..<52])"
    by (simp only: win length_map length_upt) simp
  also have "\<dots> = map f [1 + 1..<52]"
    by (simp only: drop_map drop_upt)
  also have "(1::nat) + 1 = 2"
    by simp
  finally show ?thesis
    using win [of ms] len by blast
qed

subsection \<open>Frame codec\<close>

text \<open>
  What the source can throw. \<^verbatim>\<open>readUInt16BE\<close>, \<^verbatim>\<open>readUInt32BE\<close> and
  \<^verbatim>\<open>writeUInt32BE\<close> throw a \<^verbatim>\<open>RangeError\<close> on an offset outside the buffer
  or a value outside 32 bits; reading a property of \<^verbatim>\<open>null\<close> throws a
  \<^verbatim>\<open>TypeError\<close>.
\<close>

datatype error = RangeError | TypeError

text \<open>
  \<^verbatim>\<open>buf[i]\<close> is \<^verbatim>\<open>undefined\<close> outside the buffer, which the bit operators
  \<^verbatim>\<open>&\<close> and \<^verbatim>\<open>^\<close> read as 0. \<^verbatim>\<open>buf.slice(a, b)\<close> stops at the end of
  the buffer.
\<close>

definition byteAt :: "byte list \<Rightarrow> nat \<Rightarrow> byte" where
  "byteAt buf i = (if i < length buf then buf ! i else 0)"

definition slice :: "'a list \<Rightarrow> nat \<Rightarrow> nat \<Rightarrow> 'a list" where
  "slice buf a b = take (b - a) (drop a buf)"

definition readUInt16BE :: "byte list \<Rightarrow> nat \<Rightarrow> error + nat" where
  "readUInt16BE buf off =
     (if off + 2 \<le> length buf
      then Inr (unat (buf ! off) * 256 + unat (buf ! (off + 1)))
      else Inl RangeError)"

definition readUInt32BE :: "byte list \<Rightarrow> nat \<Rightarrow> error + nat" where
  "readUInt32BE buf off =
     (if off + 4 \<le> length buf
      then Inr (unat (buf ! off) * 2 ^ 24 + unat (buf ! (off + 1)) * 2 ^ 16
                + unat (buf ! (off + 2)) * 2 ^ 8 + unat (buf ! (off + 3)))
      else Inl RangeError)"

definition writeUInt16BE :: "nat \<Rightarrow> error + byte list" where
  "writeUInt16BE v =
     (if v < 2 ^ 16 then Inr [of_nat (v div 2 ^ 8), of_nat v] else Inl RangeError)"

definition writeUInt32BE :: "nat \<Rightarrow> error + byte list" where
  "writeUInt32BE v =
     (if v < 2 ^ 32
      then Inr [of_nat (v div 2 ^ 24), of_nat (v div 2 ^ 16), of_nat (v div 2 ^ 8), of_nat v]
      else Inl RangeError)"

record frame =
  opcode :: byte
  payload :: "byte list"
  totalLength :: nat

text \<open>
  The tail of \<^verbatim>\<open>parseFrame\<close>, from \<^verbatim>\<open>if (masked)\<close> on, with the length and the
  offset that the header gave.
\<close>

definition parseBody :: "byte list \<Rightarrow> byte \<Rightarrow> bool \<Rightarrow> nat \<Rightarrow> nat \<Rightarrow> frame option" where
  "parseBody buf opc masked payLen offset =
     (if masked then
        (if length buf < offset + 4 + payLen then None
         else
           (let mask = slice buf offset (offset + 4);
                offset' = offset + 4;
                unmasked = map (\<lambda>i. byteAt buf (offset' + i) XOR byteAt mask (i mod 4)) [0..<payLen]
            in Some \<lparr>opcode = opc, payload = unmasked, totalLength = offset' + payLen\<rparr>))
      else if length buf < offset + payLen then None
      else Some \<lparr>opcode = opc, payload = slice buf offset (offset + payLen),
                  totalLength = offset + payLen\<rparr>)"

text \<open>
  \<^verbatim>\<open>parseFrame(buf)\<close>: \<open>Inr None\<close> is the source's \<^verbatim>\<open>null\<close> (not enough data
  yet), \<open>Inl\<close> an exception.
\<close>

definition parseFrame :: "byte list \<Rightarrow> error + frame option" where
  "parseFrame buf =
     (if length buf < 2 then Inr None
      else
        (let opc = byteAt buf 0 AND 0x0F;
             masked = (byteAt buf 1 AND 0x80 \<noteq> 0);
             payLen = unat (byteAt buf 1 AND 0x7F)
         in if payLen = 126 then
              (if length buf < 4 then Inr None
               else (case readUInt16BE buf 2 of
                       Inl e \<Rightarrow> Inl e
                     | Inr n \<Rightarrow> Inr (parseBody buf opc masked n 4)))
            else if payLen = 127 then
              (if length buf < 10 then Inr None
               else (case readUInt32BE buf 6 of
                       Inl e \<Rightarrow> Inl e
                     | Inr n \<Rightarrow> Inr (parseBody buf opc masked n 10)))
            else Inr (parseBody buf opc masked payLen 2)))"

text \<open>
  \<^verbatim>\<open>Buffer.from(text, 'utf8')\<close>: the UTF-8 encoding of a string of UTF-16 code units
  (each below 65536). A surrogate pair is one code point of four bytes; a lone surrogate
  is encoded as U+FFFD.
\<close>

definition utf8_3 :: "nat \<Rightarrow> byte list" where
  "utf8_3 c = [0xE0 OR of_nat (c div 4096), 0x80 OR of_nat (c div 64 mod 64), 0x80 OR of_nat (c mod 64)]"

definition utf8_4 :: "nat \<Rightarrow> byte list" where
  "utf8_4 c = [0xF0 OR of_nat (c div 262144), 0x80 OR of_nat (c div 4096 mod 64),
               0x80 OR of_nat (c div 64 mod 64), 0x80 OR of_nat (c mod 64)]"

fun utf8 :: "jsstring \<Rightarrow> byte list" where
  "utf8 [] = []"
| "utf8 [c] =
     (if c < 0x80 then [of_nat c]
      else if c < 0x800 then [0xC0 OR of_nat (c div 64), 0x80 OR of_nat (c mod 64)]
      else if 0xD800 \<le> c \<and> c < 0xE000 then utf8_3 0xFFFD
      else utf8_3 c)"
| "utf8 (c # d # cs) =
     (if c < 0x80 then of_nat c # utf8 (d # cs)
      else if c < 0x800 then [0xC0 OR of_nat (c div 64), 0x80 OR of_nat (c mod 64)] @ utf8 (d # cs)
      else if 0xD800 \<le> c \<and> c < 0xDC00 \<and> 0xDC00 \<le> d \<and> d < 0xE000
        then utf8_4 (0x10000 + (c - 0xD800) * 1024 + (d - 0xDC00)) @ utf8 cs
      else if 0xD800 \<le> c \<and> c < 0xE000 then utf8_3 0xFFFD @ utf8 (d # cs)
      else utf8_3 c @ utf8 (d # cs))"

text \<open>
  \<^verbatim>\<open>buildFrame(text)\<close>. The header bytes are \<^verbatim>\<open>0x81\<close> (FIN = 1, opcode = text)
  and the length in its shortest form.
\<close>

definition buildFrame :: "jsstring \<Rightarrow> error + byte list" where
  "buildFrame text =
     (let payload = utf8 text; len = length payload
      in if len < 126 then Inr ([0x81, of_nat len] @ payload)
         else if len < 65536 then
           (case writeUInt16BE len of
              Inl e \<Rightarrow> Inl e
            | Inr l \<Rightarrow> Inr ([0x81, 126] @ l @ payload))
         else
           (case writeUInt32BE 0 of
              Inl e \<Rightarrow> Inl e
            | Inr hi \<Rightarrow>
               (case writeUInt32BE len of
                  Inl e \<Rightarrow> Inl e
                | Inr lo \<Rightarrow> Inr ([0x81, 127] @ hi @ lo @ payload))))"

definition buildPing :: "byte list" where "buildPing = [0x89, 0]"
definition buildClose :: "byte list" where "buildClose = [0x88, 0]"

subsection \<open>Frame codec: building and parsing\<close>

lemma unat_low7: "unat ((of_nat n :: byte) AND 0x7F) = n mod 128"
proof -
  have m: "(0x7F :: byte) = mask 7"
    by (simp add: mask_eq_exp_minus_1)
  have "unat ((of_nat n :: byte) AND mask 7) = take_bit 7 (n mod 256)"
    by (simp only: take_bit_eq_mask [symmetric] unsigned_take_bit_eq unat_of_nat) simp
  also have "\<dots> = n mod 128"
    by (simp add: take_bit_eq_mod mod_mod_cancel)
  finally show ?thesis
    by (simp only: m)
qed


lemma mask_bit_clear: "n < 128 \<Longrightarrow> (of_nat n :: byte) AND 0x80 = 0"
proof (rule bit_eqI)
  fix k
  assume n: "n < 128"
  have "\<not> bit n 7" using n by (simp add: bit_iff_odd)
  moreover have "bit (0x80 :: byte) k \<longleftrightarrow> k = 7"
    using bit_exp_iff [where ?'a = byte, of 7 k] by auto
  ultimately show "bit ((of_nat n :: byte) AND 0x80) k \<longleftrightarrow> bit (0 :: byte) k"
    by (auto simp add: bit_and_iff bit_of_nat_iff)
qed

lemma u16_bytes:
  "n < 65536 \<Longrightarrow> unat (of_nat (n div 256) :: byte) * 256 + unat (of_nat n :: byte) = n"
  by (simp add: unat_of_nat)

lemma u32_bytes:
  assumes "n < 4294967296"
  shows "unat (of_nat (n div 16777216) :: byte) * 16777216
     + unat (of_nat (n div 65536) :: byte) * 65536
     + unat (of_nat (n div 256) :: byte) * 256 + unat (of_nat n :: byte) = n"
proof -
  have b0: "n mod 65536 = 256 * (n div 256 mod 256) + n mod 256"
    using mod_mult2_eq [of n 256 256] by simp
  have b1: "n mod 16777216 = 65536 * (n div 65536 mod 256) + n mod 65536"
    using mod_mult2_eq [of n 65536 256] by simp
  have b2: "n = 16777216 * (n div 16777216) + n mod 16777216"
    by simp
  have "n div 16777216 < 256"
    using assms by (simp add: less_mult_imp_div_less)
  then have b3: "n div 16777216 mod 256 = n div 16777216"
    by simp
  have "n div 16777216 mod 256 * 16777216 + n div 65536 mod 256 * 65536
      + n div 256 mod 256 * 256 + n mod 256 = n"
    using b0 b1 b2 b3 by linarith
  then show ?thesis
    using b3 by (simp add: unat_of_nat)
qed

definition frameHeader :: "nat \<Rightarrow> byte list" where
  "frameHeader n =
     (if n < 126 then [0x81, of_nat n]
      else if n < 65536 then [0x81, 126, of_nat (n div 256), of_nat n]
      else [0x81, 127, 0, 0, 0, 0,
            of_nat (n div 16777216), of_nat (n div 65536), of_nat (n div 256), of_nat n])"

lemma buildFrame_header:
  "length (utf8 text) < 2 ^ 32 \<Longrightarrow>
   buildFrame text = Inr (frameHeader (length (utf8 text)) @ utf8 text)"
  by (simp add: buildFrame_def frameHeader_def Let_def writeUInt16BE_def writeUInt32BE_def)

lemma parse_short:
  assumes "length p < 126"
  shows "parseFrame ([0x81, of_nat (length p)] @ p)
     = Inr (Some \<lparr>opcode = 1, payload = p, totalLength = 2 + length p\<rparr>)"
  using assms
  by (simp add: parseFrame_def parseBody_def byteAt_def slice_def Let_def
      unat_low7 mask_bit_clear)

lemma parse_medium:
  assumes "length p < 65536"
  shows "parseFrame ([0x81, 126, of_nat (length p div 256), of_nat (length p)] @ p)
     = Inr (Some \<lparr>opcode = 1, payload = p, totalLength = 4 + length p\<rparr>)"
  using assms u16_bytes [of "length p"]
  by (simp add: parseFrame_def parseBody_def byteAt_def slice_def Let_def readUInt16BE_def)

lemma parse_long:
  assumes "length p < 4294967296"
  shows "parseFrame ([0x81, 127, 0, 0, 0, 0, of_nat (length p div 16777216),
            of_nat (length p div 65536), of_nat (length p div 256), of_nat (length p)] @ p)
     = Inr (Some \<lparr>opcode = 1, payload = p, totalLength = 10 + length p\<rparr>)"
  using assms u32_bytes [of "length p"]
  by (simp add: parseFrame_def parseBody_def byteAt_def slice_def Let_def readUInt32BE_def)

lemma parse_header:
  assumes "length p < 2 ^ 32"
  shows "parseFrame (frameHeader (length p) @ p)
     = Inr (Some \<lparr>opcode = 1, payload = p,
                    totalLength = length (frameHeader (length p)) + length p\<rparr>)"
  using assms parse_short [of p] parse_medium [of p] parse_long [of p]
  by (simp add: frameHeader_def)




definition frameNeed :: "byte list \<Rightarrow> nat" where
  "frameNeed buf =
     (if length buf < 2 then 2
      else
        (let maskLen = (if byteAt buf 1 AND 0x80 \<noteq> 0 then 4 else 0);
             len7 = unat (byteAt buf 1 AND 0x7F)
         in if len7 = 126 then
              (if length buf < 4 then 4
               else 4 + maskLen + (unat (buf ! 2) * 256 + unat (buf ! 3)))
            else if len7 = 127 then
              (if length buf < 10 then 10
               else 10 + maskLen + (unat (buf ! 6) * 2 ^ 24 + unat (buf ! 7) * 2 ^ 16
                                    + unat (buf ! 8) * 2 ^ 8 + unat (buf ! 9)))
            else 2 + maskLen + len7))"

lemma parseFrame_no_error: "parseFrame buf \<noteq> Inl e"
  by (simp add: parseFrame_def readUInt16BE_def readUInt32BE_def Let_def)

lemma parseFrame_None_iff: "parseFrame buf = Inr None \<longleftrightarrow> length buf < frameNeed buf"
  by (simp add: parseFrame_def parseBody_def frameNeed_def readUInt16BE_def readUInt32BE_def
      Let_def)

lemma parseFrame_Some:
  "parseFrame buf = Inr (Some f) \<Longrightarrow>
   totalLength f = frameNeed buf \<and> totalLength f \<le> length buf \<and> 2 \<le> totalLength f
   \<and> opcode f = byteAt buf 0 AND 0x0F"
  by (auto simp add: parseFrame_def parseBody_def frameNeed_def readUInt16BE_def
      readUInt32BE_def Let_def split: if_splits)

text \<open>
  C2. For every text whose UTF-8 encoding has 0, 1, 125, 126, 65535 or 65536 bytes,
  \<open>buildFrame\<close> returns the header followed by the payload, where the header is
  \<^verbatim>\<open>0x81\<close> (FIN set, opcode text) and the shortest length form: one byte below 126,
  the marker 126 and 16 bits below 65536, the marker 127 and 64 bits with a zero high
  word otherwise; the mask bit is clear. \<open>parseFrame\<close> of that frame is a complete frame
  of opcode 1 whose payload is the encoded text and which consumes the whole frame.
\<close>

theorem build_parse_roundtrip:
  assumes "length (utf8 text) \<in> {0, 1, 125, 126, 65535, 65536}"
  shows "\<exists>header.
     buildFrame text = Inr (header @ utf8 text)
     \<and> header = (let n = length (utf8 text)
                 in if n < 126 then [0x81, of_nat n]
                    else if n < 65536 then [0x81, 126, of_nat (n div 256), of_nat n]
                    else [0x81, 127, 0, 0, 0, 0, of_nat (n div 16777216),
                          of_nat (n div 65536), of_nat (n div 256), of_nat n])
     \<and> byteAt header 0 AND 0x80 = 0x80
     \<and> byteAt header 0 AND 0x0F = 1
     \<and> byteAt header 1 AND 0x80 = 0
     \<and> parseFrame (header @ utf8 text)
         = Inr (Some \<lparr>opcode = 1, payload = utf8 text,
                        totalLength = length header + length (utf8 text)\<rparr>)"
proof -
  let ?n = "length (utf8 text)"
  have n: "?n < 2 ^ 32"
    using assms by auto
  have built: "buildFrame text = Inr (frameHeader ?n @ utf8 text)"
    using n by (rule buildFrame_header)
  have parsed: "parseFrame (frameHeader ?n @ utf8 text)
      = Inr (Some \<lparr>opcode = 1, payload = utf8 text,
                     totalLength = length (frameHeader ?n) + ?n\<rparr>)"
    using n by (rule parse_header)
  have shape: "frameHeader ?n = (let n = ?n
                 in if n < 126 then [0x81, of_nat n]
                    else if n < 65536 then [0x81, 126, of_nat (n div 256), of_nat n]
                    else [0x81, 127, 0, 0, 0, 0, of_nat (n div 16777216),
                          of_nat (n div 65536), of_nat (n div 256), of_nat n])"
    by (simp add: frameHeader_def Let_def)
  have fin: "byteAt (frameHeader ?n) 0 AND 0x80 = 0x80"
    and opc: "byteAt (frameHeader ?n) 0 AND 0x0F = 1"
    by (simp_all add: frameHeader_def byteAt_def)
  have nomask: "byteAt (frameHeader ?n) 1 AND 0x80 = 0"
    by (simp add: frameHeader_def byteAt_def mask_bit_clear)
  show ?thesis
    using built parsed shape fin opc nomask by blast
qed

theorem build_parse_roundtrip_witness:
  "length (utf8 (js ''A'')) \<in> {0, 1, 125, 126, 65535, 65536}
   \<and> buildFrame (js ''A'') = Inr [0x81, 1, 0x41]
   \<and> parseFrame [0x81, 1, 0x41] = Inr (Some \<lparr>opcode = 1, payload = [0x41], totalLength = 3\<rparr>)"
proof -
  have len: "length (utf8 (js ''A'')) \<in> {0, 1, 125, 126, 65535, 65536}"
    by simp
  from build_parse_roundtrip [OF len] show ?thesis
    using len by (simp add: Let_def)
qed

subsection \<open>Nicknames\<close>

text \<open>
  \<^verbatim>\<open>String.prototype.trim\<close> removes white space and line terminators from both ends:
  TAB, LF, VT, FF, CR, SP, NBSP, U+1680, U+2000 to U+200A, U+2028, U+2029, U+202F, U+205F,
  U+3000 and U+FEFF.
\<close>

definition isWhiteSpace :: "nat \<Rightarrow> bool" where
  "isWhiteSpace c \<longleftrightarrow>
     (9 \<le> c \<and> c \<le> 13) \<or> c = 32 \<or> c = 160 \<or> c = 0x1680 \<or> (0x2000 \<le> c \<and> c \<le> 0x200A)
     \<or> c = 0x2028 \<or> c = 0x2029 \<or> c = 0x202F \<or> c = 0x205F \<or> c = 0x3000 \<or> c = 0xFEFF"

definition trim :: "jsstring \<Rightarrow> jsstring" where
  "trim s = rev (dropWhile isWhiteSpace (rev (dropWhile isWhiteSpace s)))"

text \<open>
  The characters that \<^verbatim>\<open>/[^\w\-. ]/g\<close> keeps: \<^verbatim>\<open>\w\<close> is \<^verbatim>\<open>[A-Za-z0-9_]\<close>, then
  the hyphen, the dot and the space.
\<close>

definition nickChar :: "nat \<Rightarrow> bool" where
  "nickChar c \<longleftrightarrow>
     (65 \<le> c \<and> c \<le> 90) \<or> (97 \<le> c \<and> c \<le> 122) \<or> (48 \<le> c \<and> c \<le> 57) \<or> c = 95
     \<or> c = 45 \<or> c = 46 \<or> c = 32"

text \<open>
  \<^verbatim>\<open>
  function sanitizeNick(raw) {
    const trimmed = (raw || '').trim().replace(/[^\w\-. ]/g, '').slice(0, MAX_NICK_LEN);
    return trimmed || 'Anonymous';
  }
  \<close>
\<close>

definition sanitizeNick :: "jsstring \<Rightarrow> jsstring" where
  "sanitizeNick raw =
     (let trimmed = take MAX_NICK_LEN (filter nickChar (trim raw))
      in if trimmed = [] then js ''Anonymous'' else trimmed)"

text \<open>
  The decimal digits of a number, as the template literal \<^verbatim>\<open>`${desired}${n}`\<close> prints
  it. (The counter of \<^verbatim>\<open>uniqueNick\<close> is a double; it is exact and prints in this form
  far beyond any number of names that a registry can hold.)
\<close>

fun showNat :: "nat \<Rightarrow> jsstring" where
  "showNat n = (if n < 10 then [48 + n] else showNat (n div 10) @ [48 + n mod 10])"

declare showNat.simps [simp del]

record client =
  clientId :: nat
  nick :: jsstring
  alive :: bool
  buf :: "byte list"
  rateCount :: nat
  rateStart :: int

text \<open>
  \<^verbatim>\<open>
  function uniqueNick(desired) {
    const taken = new Set([...clients.values()].map(c => c.nick));
    if (!taken.has(desired)) return desired;
    let n = 2;
    while (taken.has(`${desired}${n}`)) n++;
    return `${desired}${n}`;
  }
  \<close>
  \<open>uniqueNickLoop\<close> is the \<^verbatim>\<open>while\<close> loop; it returns the final \<open>n\<close>.
\<close>

function uniqueNickLoop :: "jsstring list \<Rightarrow> jsstring \<Rightarrow> nat \<Rightarrow> nat" where
  "uniqueNickLoop taken desired n =
     (if desired @ showNat n \<in> set taken then uniqueNickLoop taken desired (Suc n) else n)"
  by pat_completeness auto

definition uniqueNick :: "(sock \<times> client) list \<Rightarrow> jsstring \<Rightarrow> jsstring" where
  "uniqueNick clients desired =
     (let taken = map (\<lambda>(s, c). nick c) clients
      in if desired \<notin> set taken then desired
         else desired @ showNat (uniqueNickLoop taken desired 2))"

lemma showNat_bound: "n < 10 ^ length (showNat n)"
proof (induction n rule: showNat.induct)
  case (1 n)
  show ?case
  proof (cases "n < 10")
    case True
    then show ?thesis by (simp add: showNat.simps [of n])
  next
    case False
    then have "n div 10 < 10 ^ length (showNat (n div 10))"
      using "1.IH" by simp
    then have "n < 10 * 10 ^ length (showNat (n div 10))"
      by (simp add: div_less_iff_less_mult mult.commute)
    then show ?thesis
      using False by (simp add: showNat.simps [of n])
  qed
qed

lemma taken_bound:
  assumes "desired @ showNat n \<in> set taken"
  shows "n < 10 ^ sum_list (map length taken)"
proof -
  have "length (desired @ showNat n) \<in> set (map length taken)"
    using assms by (simp only: set_map) (rule imageI)
  then have "length (desired @ showNat n) \<le> sum_list (map length taken)"
    by (simp add: member_le_sum_list)
  then have "length (showNat n) \<le> sum_list (map length taken)"
    by simp
  then have "(10::nat) ^ length (showNat n) \<le> 10 ^ sum_list (map length taken)"
    by (simp add: power_increasing)
  with showNat_bound [of n] show ?thesis
    by linarith
qed

termination uniqueNickLoop
proof (relation "measure (\<lambda>(taken, desired, n). 10 ^ sum_list (map length taken) - n)")
  show "wf (measure (\<lambda>(taken, desired, n). 10 ^ sum_list (map length taken) - n))"
    by simp
next
  fix taken :: "jsstring list" and desired :: jsstring and n :: nat
  assume "desired @ showNat n \<in> set taken"
  then have "n < 10 ^ sum_list (map length taken)"
    by (rule taken_bound)
  then show "((taken, desired, Suc n), (taken, desired, n))
      \<in> measure (\<lambda>(taken, desired, n). 10 ^ sum_list (map length taken) - n)"
    by simp
qed

declare uniqueNickLoop.simps [simp del]

lemma showNat_nonempty: "showNat n \<noteq> []"
  by (simp add: showNat.simps [of n])

lemma showNat_inj: "showNat n = showNat m \<Longrightarrow> n = m"
proof (induction n arbitrary: m rule: showNat.induct)
  case (1 n)
  show ?case
  proof (cases "n < 10")
    case n: True
    show ?thesis
    proof (cases "m < 10")
      case True
      with n "1.prems" show ?thesis
        by (simp add: showNat.simps [of n] showNat.simps [of m])
    next
      case False
      with n "1.prems" showNat_nonempty [of "m div 10"] show ?thesis
        by (simp add: showNat.simps [of n] showNat.simps [of m] Cons_eq_append_conv)
    qed
  next
    case n: False
    show ?thesis
    proof (cases "m < 10")
      case True
      with n "1.prems" showNat_nonempty [of "n div 10"] show ?thesis
        by (simp add: showNat.simps [of n] showNat.simps [of m] append_eq_Cons_conv)
    next
      case False
      with n "1.prems" have eq: "showNat (n div 10) = showNat (m div 10)" "n mod 10 = m mod 10"
        by (simp_all add: showNat.simps [of n] showNat.simps [of m])
      from n eq(1) have "n div 10 = m div 10"
        by (rule "1.IH")
      with eq(2) show ?thesis
        by (metis div_mult_mod_eq)
    qed
  qed
qed

lemma showNat_length: "n < 1000 \<Longrightarrow> length (showNat n) \<le> 3"
  by (simp add: showNat.simps [of n] showNat.simps [of "n div 10"]
      showNat.simps [of "n div 10 div 10"] div_less_iff_less_mult)

lemma uniqueNickLoop_free:
  "desired @ showNat (uniqueNickLoop taken desired n) \<notin> set taken"
  by (induction taken desired n rule: uniqueNickLoop.induct)
    (subst uniqueNickLoop.simps, simp)

lemma uniqueNickLoop_ge: "n \<le> uniqueNickLoop taken desired n"
proof (induction taken desired n rule: uniqueNickLoop.induct)
  case (1 taken desired n)
  show ?case
  proof (cases "desired @ showNat n \<in> set taken")
    case True
    with "1.IH" have "Suc n \<le> uniqueNickLoop taken desired (Suc n)"
      by simp
    with True show ?thesis
      by (subst uniqueNickLoop.simps) simp
  next
    case False
    then show ?thesis
      by (subst uniqueNickLoop.simps) simp
  qed
qed

lemma uniqueNickLoop_below:
  "n \<le> k \<Longrightarrow> k < uniqueNickLoop taken desired n \<Longrightarrow> desired @ showNat k \<in> set taken"
proof (induction taken desired n rule: uniqueNickLoop.induct)
  case (1 taken desired n)
  show ?case
  proof (cases "desired @ showNat n \<in> set taken")
    case True
    show ?thesis
    proof (cases "k = n")
      case True
      with \<open>desired @ showNat n \<in> set taken\<close> show ?thesis by simp
    next
      case False
      with "1.prems"(1) have "Suc n \<le> k" by simp
      moreover have "k < uniqueNickLoop taken desired (Suc n)"
        using "1.prems"(2) True by (subst (asm) uniqueNickLoop.simps) simp
      ultimately show ?thesis
        using "1.IH" True by simp
    qed
  next
    case False
    then have "uniqueNickLoop taken desired n = n"
      by (subst uniqueNickLoop.simps) simp
    with "1.prems" show ?thesis by simp
  qed
qed

lemma uniqueNickLoop_le: "uniqueNickLoop taken desired n \<le> n + length taken"
proof -
  let ?m = "uniqueNickLoop taken desired n"
  let ?f = "\<lambda>k. desired @ showNat k"
  have "inj_on ?f {n..<?m}"
    by (rule inj_onI) (simp add: showNat_inj)
  then have "card (?f ` {n..<?m}) = ?m - n"
    by (simp add: card_image)
  moreover have "?f ` {n..<?m} \<subseteq> set taken"
    using uniqueNickLoop_below [of n _ taken desired] by auto
  then have "card (?f ` {n..<?m}) \<le> card (set taken)"
    by (simp add: card_mono)
  moreover have "card (set taken) \<le> length taken"
    by (rule card_length)
  ultimately show ?thesis
    by linarith
qed

text \<open>
  C5. Given the nicknames of the live connections, a requested name that is free is
  returned unchanged. A taken name gets the smallest integer suffix, from 2 upwards, that
  gives a free name. The result is never the nickname of a live connection. A first
  request for "Bob" yields "Bob", a second "Bob2", a third "Bob3".
\<close>

theorem uniqueNick_resolution:
  "(desired \<notin> nick ` snd ` set cs \<longrightarrow> uniqueNick cs desired = desired)
   \<and> (desired \<in> nick ` snd ` set cs \<longrightarrow>
        (\<exists>n\<ge>2. uniqueNick cs desired = desired @ showNat n
           \<and> (\<forall>k. 2 \<le> k \<and> k < n \<longrightarrow> desired @ showNat k \<in> nick ` snd ` set cs)))
   \<and> uniqueNick cs desired \<notin> nick ` snd ` set cs
   \<and> uniqueNick [] (js ''Bob'') = js ''Bob''
   \<and> uniqueNick [(sa, ca\<lparr>nick := js ''Bob''\<rparr>)] (js ''Bob'') = js ''Bob2''
   \<and> uniqueNick [(sa, ca\<lparr>nick := js ''Bob''\<rparr>), (sb, cb\<lparr>nick := js ''Bob2''\<rparr>)] (js ''Bob'')
       = js ''Bob3''"
proof -
  let ?taken = "map (\<lambda>(s, c). nick c) cs"
  let ?n = "uniqueNickLoop ?taken desired 2"
  have taken: "set ?taken = nick ` snd ` set cs"
    by (auto simp add: image_iff split: prod.splits) force
  have free: "desired \<notin> nick ` snd ` set cs \<longrightarrow> uniqueNick cs desired = desired"
    by (simp add: uniqueNick_def Let_def taken del: set_map)
  have suffix: "desired \<in> nick ` snd ` set cs \<longrightarrow>
        (\<exists>n\<ge>2. uniqueNick cs desired = desired @ showNat n
           \<and> (\<forall>k. 2 \<le> k \<and> k < n \<longrightarrow> desired @ showNat k \<in> nick ` snd ` set cs))"
  proof
    assume "desired \<in> nick ` snd ` set cs"
    then have "uniqueNick cs desired = desired @ showNat ?n"
      by (simp add: uniqueNick_def Let_def taken del: set_map)
    moreover have "2 \<le> ?n"
      by (rule uniqueNickLoop_ge)
    moreover have "\<forall>k. 2 \<le> k \<and> k < ?n \<longrightarrow> desired @ showNat k \<in> nick ` snd ` set cs"
      using uniqueNickLoop_below [of 2 _ ?taken desired] by (simp only: taken) blast
    ultimately show "\<exists>n\<ge>2. uniqueNick cs desired = desired @ showNat n
           \<and> (\<forall>k. 2 \<le> k \<and> k < n \<longrightarrow> desired @ showNat k \<in> nick ` snd ` set cs)"
      by blast
  qed
  have fresh: "uniqueNick cs desired \<notin> nick ` snd ` set cs"
    using uniqueNickLoop_free [of desired ?taken 2]
    by (simp add: uniqueNick_def Let_def taken del: set_map)
  have bob1: "uniqueNick [] (js ''Bob'') = js ''Bob''"
    by (simp add: uniqueNick_def)
  have bob2: "uniqueNick [(sa, ca\<lparr>nick := js ''Bob''\<rparr>)] (js ''Bob'') = js ''Bob2''"
    by (simp add: uniqueNick_def uniqueNickLoop.simps showNat.simps)
  have bob3: "uniqueNick [(sa, ca\<lparr>nick := js ''Bob''\<rparr>), (sb, cb\<lparr>nick := js ''Bob2''\<rparr>)]
      (js ''Bob'') = js ''Bob3''"
    by (simp add: uniqueNick_def uniqueNickLoop.simps showNat.simps)
  show ?thesis
    using free suffix fresh bob1 bob2 bob3 by blast
qed

theorem uniqueNick_resolution_witness:
  "js ''Bob'' \<in> nick ` snd ` set
       [(1, \<lparr>clientId = 1, nick = js ''Bob'', alive = True, buf = [], rateCount = 0, rateStart = 0\<rparr>),
        (2, \<lparr>clientId = 2, nick = js ''Bob2'', alive = True, buf = [], rateCount = 0, rateStart = 0\<rparr>)]
   \<and> uniqueNick
       [(1, \<lparr>clientId = 1, nick = js ''Bob'', alive = True, buf = [], rateCount = 0, rateStart = 0\<rparr>),
        (2, \<lparr>clientId = 2, nick = js ''Bob2'', alive = True, buf = [], rateCount = 0, rateStart = 0\<rparr>)]
       (js ''Bob'') = js ''Bob3''
   \<and> js ''Bob3'' \<notin> nick ` snd ` set
       [(1, \<lparr>clientId = 1, nick = js ''Bob'', alive = True, buf = [], rateCount = 0, rateStart = 0\<rparr>),
        (2, \<lparr>clientId = 2, nick = js ''Bob2'', alive = True, buf = [], rateCount = 0, rateStart = 0\<rparr>)]"
  using uniqueNick_resolution [where desired = "js ''Bob''" and sa = 1 and sb = 2
      and ca = "\<lparr>clientId = 1, nick = js ''Bob'', alive = True, buf = [], rateCount = 0, rateStart = 0\<rparr>"
      and cb = "\<lparr>clientId = 2, nick = js ''Bob2'', alive = True, buf = [], rateCount = 0, rateStart = 0\<rparr>"
      and cs = "[(1, \<lparr>clientId = 1, nick = js ''Bob'', alive = True, buf = [], rateCount = 0, rateStart = 0\<rparr>),
        (2, \<lparr>clientId = 2, nick = js ''Bob2'', alive = True, buf = [], rateCount = 0, rateStart = 0\<rparr>)]"]
  by simp

lemma sanitizeNick_length: "1 \<le> length (sanitizeNick raw) \<and> length (sanitizeNick raw) \<le> 24"
  by (simp add: sanitizeNick_def Let_def MAX_NICK_LEN_def Suc_le_eq)

text \<open>
  C6 as stated does not hold: a requested name of 24 letters that a live connection
  already has is assigned with the suffix 2, which makes 25 characters.
\<close>

theorem nick_length_counterexample:
  "\<not> length (uniqueNick
        [(1, \<lparr>clientId = 1, nick = replicate 24 65, alive = True, buf = [], rateCount = 0,
               rateStart = 0\<rparr>)]
        (sanitizeNick (replicate 24 65))) \<le> MAX_NICK_LEN"
  by (simp add: uniqueNick_def sanitizeNick_def trim_def isWhiteSpace_def nickChar_def
      MAX_NICK_LEN_def uniqueNickLoop.simps showNat.simps Let_def)

text \<open>
  C6, amended. The name after sanitization, truncation and defaulting has between 1 and
  24 characters. The nickname assigned is that name when no live connection has it, and
  otherwise that name followed by the decimal suffix that \<open>uniqueNick\<close> finds; with a
  registry below its capacity of 100 the suffix has at most three digits, so the assigned
  nickname has at most 27 characters.
\<close>

theorem assigned_nick_length:
  "1 \<le> length (sanitizeNick raw) \<and> length (sanitizeNick raw) \<le> MAX_NICK_LEN
   \<and> (sanitizeNick raw \<notin> nick ` snd ` set cs \<longrightarrow>
        uniqueNick cs (sanitizeNick raw) = sanitizeNick raw)
   \<and> (sanitizeNick raw \<in> nick ` snd ` set cs \<longrightarrow>
        (\<exists>n\<ge>2. n \<le> length cs + 2
           \<and> uniqueNick cs (sanitizeNick raw) = sanitizeNick raw @ showNat n))
   \<and> (length cs < MAX_CLIENTS \<longrightarrow> length (uniqueNick cs (sanitizeNick raw)) \<le> MAX_NICK_LEN + 3)"
proof -
  let ?d = "sanitizeNick raw"
  let ?taken = "map (\<lambda>(s, c). nick c) cs"
  let ?n = "uniqueNickLoop ?taken ?d 2"
  have taken: "set ?taken = nick ` snd ` set cs"
    by (auto simp add: image_iff split: prod.splits) force
  have len: "1 \<le> length ?d \<and> length ?d \<le> MAX_NICK_LEN"
    using sanitizeNick_length [of raw] by (simp add: MAX_NICK_LEN_def)
  have free: "?d \<notin> nick ` snd ` set cs \<longrightarrow> uniqueNick cs ?d = ?d"
    by (simp add: uniqueNick_def Let_def taken del: set_map)
  have n_lo: "2 \<le> ?n"
    by (rule uniqueNickLoop_ge)
  have n_hi: "?n \<le> length cs + 2"
    using uniqueNickLoop_le [of ?taken ?d 2] by simp
  have suffix: "?d \<in> nick ` snd ` set cs \<longrightarrow>
      (\<exists>n\<ge>2. n \<le> length cs + 2 \<and> uniqueNick cs ?d = ?d @ showNat n)"
  proof
    assume "?d \<in> nick ` snd ` set cs"
    then have "uniqueNick cs ?d = ?d @ showNat ?n"
      by (simp add: uniqueNick_def Let_def taken del: set_map)
    with n_lo n_hi show "\<exists>n\<ge>2. n \<le> length cs + 2 \<and> uniqueNick cs ?d = ?d @ showNat n"
      by blast
  qed
  have bound: "length cs < MAX_CLIENTS \<longrightarrow> length (uniqueNick cs ?d) \<le> MAX_NICK_LEN + 3"
  proof
    assume cap: "length cs < MAX_CLIENTS"
    show "length (uniqueNick cs ?d) \<le> MAX_NICK_LEN + 3"
    proof (cases "?d \<in> nick ` snd ` set cs")
      case False
      with free len show ?thesis by simp
    next
      case True
      then have eq: "uniqueNick cs ?d = ?d @ showNat ?n"
        by (simp add: uniqueNick_def Let_def taken del: set_map)
      have "?n < 1000"
        using n_hi cap by (simp add: MAX_CLIENTS_def)
      then have "length (showNat ?n) \<le> 3"
        by (rule showNat_length)
      with len show ?thesis
        by (simp add: eq)
    qed
  qed
  show ?thesis
    using len free suffix bound by blast
qed

theorem assigned_nick_length_witness:
  "sanitizeNick (replicate 24 65) \<in> nick ` snd ` set
       [(1, \<lparr>clientId = 1, nick = replicate 24 65, alive = True, buf = [], rateCount = 0,
              rateStart = 0\<rparr>)]
   \<and> length [(1 :: nat, \<lparr>clientId = 1, nick = replicate 24 65, alive = True, buf = [],
                         rateCount = 0, rateStart = (0 :: int)\<rparr>)] < MAX_CLIENTS
   \<and> length (uniqueNick
        [(1, \<lparr>clientId = 1, nick = replicate 24 65, alive = True, buf = [], rateCount = 0,
               rateStart = 0\<rparr>)]
        (sanitizeNick (replicate 24 65))) \<le> MAX_NICK_LEN + 3"
  using assigned_nick_length [where raw = "replicate 24 65"
      and cs = "[(1, \<lparr>clientId = 1, nick = replicate 24 65, alive = True, buf = [],
                       rateCount = 0, rateStart = 0\<rparr>)]"]
  by (simp add: sanitizeNick_def trim_def isWhiteSpace_def nickChar_def MAX_NICK_LEN_def
      MAX_CLIENTS_def Let_def)

end
